theory Spec2Isabelle
  imports Main "HOL-Library.Word" "HOL-Library.Multiset"
begin

unbundle bit_operations_syntax

section \<open>The cache simulator of Cache/cache.c and cache.h\<close>

text \<open>
  The C code is read on an LP64 platform: \<open>size_t\<close>, \<open>uintptr_t\<close>, \<open>uint64_t\<close> and
  \<open>long\<close> are 64 bits wide, \<open>int\<close> and \<open>unsigned int\<close> are 32 bits wide, and
  \<open>sizeof(uintptr_t)\<close> is 8. Unsigned arithmetic wraps around (the \<open>word\<close> types).
  Where C leaves an operation undefined (division by zero, a shift by a negative amount
  or out of the range of the type, signed overflow, a write outside an array, a
  dereferenced null pointer) the model returns an error value, so that no statement
  rests on what one compiler happens to do. Allocation is taken to succeed: the source
  never tests what \<open>malloc\<close> and \<open>calloc\<close> return.
\<close>

datatype error =
    DivisionByZero
  | UndefinedShift
  | SignedOverflow
  | OutOfBounds
  | NullDereference

subsection \<open>cache.h: policies and structures\<close>

definition CACHE_REPLACEMENTPOLICY_MASK :: "8 word" where
  "CACHE_REPLACEMENTPOLICY_MASK = 0x1C"

definition CACHE_REPLACEMENTPOLICY_RANDOM :: "8 word" where
  "CACHE_REPLACEMENTPOLICY_RANDOM = 0x00"

definition CACHE_REPLACEMENTPOLICY_LRU :: "8 word" where
  "CACHE_REPLACEMENTPOLICY_LRU = 0x04"

definition CACHE_REPLACEMENTPOLICY_MRU :: "8 word" where
  "CACHE_REPLACEMENTPOLICY_MRU = 0x08"

definition CACHE_REPLACEMENTPOLICY_RANDOMIZED_MARKING :: "8 word" where
  "CACHE_REPLACEMENTPOLICY_RANDOMIZED_MARKING = 0x10"

definition CACHE_WRITEPOLICY_MASK :: "8 word" where
  "CACHE_WRITEPOLICY_MASK = 0x03"

definition CACHE_WRITEPOLICY_WRITETHROUGH :: "8 word" where
  "CACHE_WRITEPOLICY_WRITETHROUGH = 0x00"

definition CACHE_WRITEPOLICY_WRITEBACK :: "8 word" where
  "CACHE_WRITEPOLICY_WRITEBACK = 0x01"

definition CACHE_WRITEPOLICY_WRITEALLOCATE :: "8 word" where
  "CACHE_WRITEPOLICY_WRITEALLOCATE = 0x00"

definition CACHE_WRITEPOLICY_WRITENOALLOCATE :: "8 word" where
  "CACHE_WRITEPOLICY_WRITENOALLOCATE = 0x02"

text \<open>
  A cache line. The pointer \<open>block\<close> points into the one allocation \<open>memory\<close> of the
  cache: it is kept as the byte offset from the start of that allocation, \<open>None\<close>
  being the null pointer that \<open>calloc\<close> leaves.
\<close>

record cache_line =
  is_valid :: bool
  is_dirty :: bool
  is_marked :: bool
  tag :: "64 word"
  block :: "nat option"

text \<open>
  A cache set. Its pointer \<open>lines\<close> is always the line array of the cache itself
  (\<open>cache_set_init\<close> is handed \<open>cache->lines\<close>), so the model keeps that one array in
  the cache and the set keeps \<open>first_index\<close> into it. \<open>lru_list\<close> is the array of
  \<open>associativity\<close> entries allocated by \<open>cache_set_init\<close>.
\<close>

record cache_set =
  first_index :: "64 word"
  lru_list :: "64 word list"
  num_marked :: "64 word"

text \<open>
  The cache. \<open>memory\<close> holds the bytes of the allocation made by \<open>malloc(num_bytes)\<close>;
  a byte that was never written is \<open>None\<close> (its value is indeterminate in C).
\<close>

record cache =
  num_sets :: "64 word"
  num_lines :: "64 word"
  line_size :: "64 word"
  associativity :: "64 word"
  block_offset_mask :: "64 word"
  cache_index_mask :: "64 word"
  cache_index_shift :: "32 word"
  tag_mask :: "64 word"
  tag_shift :: "8 word"
  policies :: "8 word"
  memory :: "8 word option list"
  lines :: "cache_line list"
  sets :: "cache_set list"
  access_count :: "32 word"
  miss_count :: "32 word"

subsection \<open>cache.c: construction\<close>

text \<open>
  \<open>cache_set_init\<close>: the loop counter is an \<open>int\<close>; it is compared with the
  \<open>size_t\<close> associativity, and incrementing it past \<open>INT_MAX\<close> is undefined.
  \<open>lru_list\<close> is allocated with \<open>malloc(associativity * sizeof(size_t))\<close>, the
  product being taken in \<open>size_t\<close>; its entries are indeterminate until the loop
  assigns them, and the model starts from zeros, which the loop overwrites one by one.
\<close>

function cache_set_init_loop ::
  "64 word \<Rightarrow> 64 word \<Rightarrow> nat \<Rightarrow> cache_line list \<Rightarrow> 64 word list
     \<Rightarrow> error + (cache_line list \<times> 64 word list)" where
  "cache_set_init_loop assoc first i lns lru =
     (if i < unat assoc then
        (let k = unat (first + of_nat i) in
         if length lns \<le> k \<or> length lru \<le> i then Inl OutOfBounds
         else if i = 2 ^ 31 - 1 then Inl SignedOverflow
         else cache_set_init_loop assoc first (Suc i)
                (lns[k := (lns ! k)\<lparr>is_valid := False\<rparr>]) (lru[i := of_nat i]))
      else Inr (lns, lru))"
  by pat_completeness auto
termination
  by (relation "measure (\<lambda>(assoc, first, i, lns, lru). unat assoc - i)") auto

declare cache_set_init_loop.simps [simp del]

definition cache_set_init ::
  "64 word \<Rightarrow> cache_line list \<Rightarrow> 64 word \<Rightarrow> error + (cache_set \<times> cache_line list)" where
  "cache_set_init assoc lns first =
     (case cache_set_init_loop assoc first 0 lns (replicate (unat (assoc * 8) div 8) 0) of
        Inl e \<Rightarrow> Inl e
      | Inr (lns', lru) \<Rightarrow>
          Inr (\<lparr>first_index = first, lru_list = lru, num_marked = 0\<rparr>, lns'))"

text \<open>\<open>logbase2\<close>: the loop halves the value while it is greater than one.\<close>

function logbase2_loop :: "64 word \<Rightarrow> 64 word \<Rightarrow> 64 word" where
  "logbase2_loop v ans =
     (if 1 < v then logbase2_loop (drop_bit 1 v) (ans + 1) else ans)"
  by pat_completeness auto
termination
proof (relation "measure (\<lambda>(v, ans). unat v)")
  fix v ans :: "64 word"
  assume "1 < v"
  then have "0 < unat v"
    by (simp add: word_less_nat_alt)
  then have "unat v div 2 < unat v"
    by simp
  then show "((drop_bit 1 v, ans + 1), (v, ans)) \<in> measure (\<lambda>(v, ans). unat v)"
    by (simp add: drop_bit_eq_div unat_div)
qed simp

declare logbase2_loop.simps [simp del]

definition logbase2 :: "64 word \<Rightarrow> 64 word" where
  "logbase2 v = logbase2_loop v 0"

text \<open>
  \<open>maskbits\<close>: \<open>(1L << nbits) - 1\<close> on a signed 64-bit \<open>long\<close>, with \<open>nbits\<close> an \<open>int\<close>.
  The shift is defined for \<open>0 \<le> nbits \<le> 62\<close> only (the result of \<open>1L << 63\<close>
  does not fit a \<open>long\<close>).
\<close>

definition maskbits :: "32 word \<Rightarrow> error + 64 word" where
  "maskbits nbits =
     (if 0 \<le> sint nbits \<and> sint nbits \<le> 62
      then Inr (push_bit (nat (sint nbits)) 1 - 1)
      else Inl UndefinedShift)"

text \<open>The loop of \<open>cache_new\<close> that hands every line its slice of \<open>memory\<close>.\<close>

function cache_new_lines_loop ::
  "nat \<Rightarrow> nat \<Rightarrow> nat \<Rightarrow> nat \<Rightarrow> cache_line list \<Rightarrow> cache_line list" where
  "cache_new_lines_loop n lsz i mem lns =
     (if i < n
      then cache_new_lines_loop n lsz (Suc i) (mem + lsz)
             (lns[i := (lns ! i)\<lparr>block := Some mem\<rparr>])
      else lns)"
  by pat_completeness auto
termination
  by (relation "measure (\<lambda>(n, lsz, i, mem, lns). n - i)") auto

declare cache_new_lines_loop.simps [simp del]

text \<open>The loop of \<open>cache_new\<close> that initialises the sets.\<close>

function cache_new_sets_loop ::
  "nat \<Rightarrow> 64 word \<Rightarrow> nat \<Rightarrow> 64 word \<Rightarrow> cache_line list \<Rightarrow> cache_set list
     \<Rightarrow> error + (cache_line list \<times> cache_set list)" where
  "cache_new_sets_loop n assoc i first lns sts =
     (if i < n then
        (case cache_set_init assoc lns first of
           Inl e \<Rightarrow> Inl e
         | Inr (s, lns') \<Rightarrow>
             cache_new_sets_loop n assoc (Suc i) (first + assoc) lns' (sts[i := s]))
      else Inr (lns, sts))"
  by pat_completeness auto
termination
  by (relation "measure (\<lambda>(n, assoc, i, first, lns, sts). n - i)") auto

declare cache_new_sets_loop.simps [simp del]

text \<open>
  \<open>cache_new\<close>. The two divisions trap on a zero divisor. \<open>offset_bits\<close> and
  \<open>index_bits\<close> are \<open>unsigned int\<close>, \<open>tag_shift\<close> is a \<open>uint8_t\<close>. The argument of
  the third \<open>maskbits\<close> call is \<open>sizeof(uintptr_t) - cache->tag_shift\<close>, that is
  \<open>8 - tag_shift\<close> computed in \<open>size_t\<close> and converted to \<open>int\<close>. \<open>calloc\<close> zeroes
  the lines and the sets.
\<close>

definition cache_new :: "64 word \<Rightarrow> 64 word \<Rightarrow> 64 word \<Rightarrow> 8 word \<Rightarrow> error + cache" where
  "cache_new num_bytes block_size assoc pol =
     (if block_size = 0 then Inl DivisionByZero
      else (let nlines = num_bytes div block_size in
      if assoc = 0 then Inl DivisionByZero
      else (let nsets = nlines div assoc;
                offset_bits = (ucast (logbase2 block_size) :: 32 word) in
      (case maskbits offset_bits of Inl e \<Rightarrow> Inl e | Inr offset_mask \<Rightarrow>
      (let index_bits = (ucast (logbase2 nsets) :: 32 word) in
      (case maskbits index_bits of Inl e \<Rightarrow> Inl e | Inr index_mask \<Rightarrow>
      (let tshift = (ucast (offset_bits + index_bits) :: 8 word) in
      (case maskbits (ucast (8 - (ucast tshift :: 64 word))) of Inl e \<Rightarrow> Inl e | Inr m \<Rightarrow>
      (let lns0 = cache_new_lines_loop (unat nlines) (unat block_size) 0 0
                    (replicate (unat nlines)
                       \<lparr>is_valid = False, is_dirty = False, is_marked = False,
                        tag = 0, block = None\<rparr>) in
      (case cache_new_sets_loop (unat nsets) assoc 0 0 lns0
              (replicate (unat nsets) \<lparr>first_index = 0, lru_list = [], num_marked = 0\<rparr>) of
         Inl e \<Rightarrow> Inl e
       | Inr (lns, sts) \<Rightarrow>
           Inr \<lparr>num_sets = nsets, num_lines = nlines, line_size = block_size,
                associativity = assoc,
                block_offset_mask = offset_mask,
                cache_index_mask = push_bit (unat offset_bits) index_mask,
                cache_index_shift = offset_bits,
                tag_mask = push_bit (unat tshift) m,
                tag_shift = tshift,
                policies = pol,
                memory = replicate (unat num_bytes) None,
                lines = lns, sets = sts,
                access_count = 0, miss_count = 0\<rparr>))))))))))"

subsection \<open>cache.c: the operations\<close>

text \<open>
  Backing memory is the address space of the process: \<open>cache_set_add\<close> casts the
  address it is given to a pointer and copies from there. It is a function from
  addresses to bytes. The generator \<open>func_t\<close> is a C function without arguments that
  returns an \<open>int\<close>; it is given as the sequence of values its successive calls return.
  A pointer to a line is the index of the line in \<open>lines\<close>, \<open>None\<close> being \<open>NULL\<close>;
  a pointer to a set is passed as the set itself, and handed back where the function
  writes to it. Every operation that is handed the cache returns it, so that what a
  call changed can be stated.
\<close>

type_synonym heap = "64 word \<Rightarrow> 8 word"

type_synonym func_t = "nat \<Rightarrow> 32 word"

text \<open>
  The bodies of the next functions are still to be written in the source
  (\<open>TO BE COMPLETED BY THE STUDENT\<close>): each consists of the one \<open>return\<close>
  statement that was added to silence the compiler, and touches nothing.
\<close>

definition cache_line_check_validity_and_tag :: "cache_line \<Rightarrow> 64 word \<Rightarrow> bool" where
  "cache_line_check_validity_and_tag cache_line tg = False"

definition cache_line_retrieve_data :: "cache_line \<Rightarrow> 64 word \<Rightarrow> 64 word" where
  "cache_line_retrieve_data cache_line offset = 0"

definition cache_set_find_matching_line ::
  "cache \<Rightarrow> cache_set \<Rightarrow> 64 word \<Rightarrow> nat option \<times> cache" where
  "cache_set_find_matching_line c cache_set tg = (None, c)"

definition choose_unmarked_cache_line ::
  "cache \<Rightarrow> cache_set \<Rightarrow> func_t \<Rightarrow> 64 word \<times> cache" where
  "choose_unmarked_cache_line c cache_set generate_random_number = (0, c)"

definition find_available_cache_line ::
  "cache \<Rightarrow> cache_set \<Rightarrow> func_t \<Rightarrow> nat option \<times> cache" where
  "find_available_cache_line c cache_set generate_random_number = (None, c)"

text \<open>
  \<open>cache_line_make_mru\<close>. The first loop looks for \<open>line_index\<close> in \<open>lru_list\<close> and
  leaves \<open>(size_t)-1\<close> when it is not there; the second loop starts at that index
  plus one (computed in \<open>size_t\<close>, so that \<open>-1\<close> wraps to \<open>0\<close>) and moves every later
  entry one place down; the last statement writes \<open>line_index\<close> at
  \<open>associativity - 1\<close>. An index outside \<open>lru_list\<close> is an error.
\<close>

function cache_line_make_mru_find ::
  "64 word list \<Rightarrow> 64 word \<Rightarrow> nat \<Rightarrow> nat \<Rightarrow> error + 64 word" where
  "cache_line_make_mru_find lru line_index n i =
     (if i < n then
        (if length lru \<le> i then Inl OutOfBounds
         else if lru ! i = line_index then Inr (of_nat i)
         else cache_line_make_mru_find lru line_index n (Suc i))
      else Inr (- 1))"
  by pat_completeness auto
termination
  by (relation "measure (\<lambda>(lru, line_index, n, i). n - i)") auto

declare cache_line_make_mru_find.simps [simp del]

function cache_line_make_mru_shift ::
  "nat \<Rightarrow> nat \<Rightarrow> 64 word list \<Rightarrow> error + 64 word list" where
  "cache_line_make_mru_shift n i lru =
     (if i < n then
        (if i = 0 \<or> length lru \<le> i then Inl OutOfBounds
         else cache_line_make_mru_shift n (Suc i) (lru[i - 1 := lru ! i]))
      else Inr lru)"
  by pat_completeness auto
termination
  by (relation "measure (\<lambda>(n, i, lru). n - i)") auto

declare cache_line_make_mru_shift.simps [simp del]

definition cache_line_make_mru :: "cache \<Rightarrow> cache_set \<Rightarrow> 64 word \<Rightarrow> error + cache_set" where
  "cache_line_make_mru c cache_set line_index =
     (let n = unat (associativity c) in
      case cache_line_make_mru_find (lru_list cache_set) line_index n 0 of
        Inl e \<Rightarrow> Inl e
      | Inr index_of_line_index \<Rightarrow>
          (case cache_line_make_mru_shift n (unat (index_of_line_index + 1))
                  (lru_list cache_set) of
             Inl e \<Rightarrow> Inl e
           | Inr lru \<Rightarrow>
               if n = 0 \<or> length lru \<le> n - 1 then Inl OutOfBounds
               else Inr (cache_set\<lparr>lru_list := lru[n - 1 := line_index]\<rparr>)))"

text \<open>
  \<open>memcpy\<close> from backing memory into the cache's own memory: \<open>n\<close> bytes from address
  \<open>src\<close> to offset \<open>dst\<close>.
\<close>

definition memcpy_block :: "8 word option list \<Rightarrow> nat \<Rightarrow> heap \<Rightarrow> 64 word \<Rightarrow> nat
    \<Rightarrow> error + 8 word option list" where
  "memcpy_block mem dst h src n =
     (if length mem < dst + n then Inl OutOfBounds
      else Inr (take dst mem @ map (\<lambda>k. Some (h (src + of_nat k))) [0..<n]
                @ drop (dst + n) mem))"

text \<open>
  \<open>cache_set_add\<close>. First the line is located, then it is set up. The statements that
  set the line up are \<open>cache_set_add_setup\<close>; they write the tag, the valid bit and the
  block of the line, and nothing else: not the dirty bit, and not backing memory.
\<close>

definition cache_set_add_setup ::
  "cache \<Rightarrow> heap \<Rightarrow> nat \<Rightarrow> 64 word \<Rightarrow> 64 word \<Rightarrow> error + (nat \<times> cache \<times> heap)" where
  "cache_set_add_setup c h line address tg =
     (if length (lines c) \<le> line then Inl OutOfBounds
      else let c1 = c\<lparr>lines := (lines c)[line := (lines c ! line)\<lparr>tag := tg, is_valid := True\<rparr>]\<rparr> in
        case block (lines c1 ! line) of
          None \<Rightarrow> Inl NullDereference
        | Some dst \<Rightarrow>
            (case memcpy_block (memory c1) dst h (address AND NOT (block_offset_mask c1))
                    (unat (line_size c1)) of
               Inl e \<Rightarrow> Inl e
             | Inr mem \<Rightarrow> Inr (line, c1\<lparr>memory := mem\<rparr>, h)))"

definition cache_set_add ::
  "cache \<Rightarrow> heap \<Rightarrow> cache_set \<Rightarrow> 64 word \<Rightarrow> 64 word \<Rightarrow> func_t
     \<Rightarrow> error + (nat \<times> cache \<times> heap)" where
  "cache_set_add c h cache_set address tg generate_random_number =
     (case find_available_cache_line c cache_set generate_random_number of
        (None, c') \<Rightarrow> Inl NullDereference
      | (Some line, c') \<Rightarrow> cache_set_add_setup c' h line address tg)"

definition cache_read :: "cache \<Rightarrow> heap \<Rightarrow> 64 word \<Rightarrow> func_t \<Rightarrow> 64 word \<times> cache \<times> heap" where
  "cache_read c h address generate_random_number = (0, c, h)"

definition cache_write ::
  "cache \<Rightarrow> heap \<Rightarrow> 64 word \<Rightarrow> 64 word \<Rightarrow> func_t \<Rightarrow> cache \<times> heap" where
  "cache_write c h address v generate_random_number = (c, h)"

definition cache_miss_count :: "cache \<Rightarrow> 32 word" where
  "cache_miss_count c = miss_count c"

definition cache_access_count :: "cache \<Rightarrow> 32 word" where
  "cache_access_count c = access_count c"

subsection \<open>The address decoder\<close>

text \<open>
  Modelled from the spec: the source has no decoder, the functions that would split an
  address (\<open>cache_read\<close>, \<open>cache_write\<close>) being unwritten. The spec gives
  \<open>tag = (address & tag_mask) >> tag_shift\<close>, on the mask and the shift that
  \<open>cache_new\<close> stores.
\<close>

definition decode_tag :: "cache \<Rightarrow> 64 word \<Rightarrow> 64 word" where
  "decode_tag c address = drop_bit (unat (tag_shift c)) (address AND tag_mask c)"

section \<open>Facts about the construction of lines and sets\<close>

lemma lines_loop_length:
  "length (cache_new_lines_loop n lsz i mem lns) = length lns"
proof (induction n lsz i mem lns rule: cache_new_lines_loop.induct)
  case (1 n lsz i mem lns)
  show ?case
  proof (cases "i < n")
    case True
    with 1 show ?thesis by (subst cache_new_lines_loop.simps) simp
  next
    case False
    then show ?thesis by (subst cache_new_lines_loop.simps) simp
  qed
qed

lemma lines_loop_nth:
  "n \<le> length lns \<Longrightarrow> j < length lns \<Longrightarrow>
   cache_new_lines_loop n lsz i mem lns ! j =
     (if i \<le> j \<and> j < n then (lns ! j)\<lparr>block := Some (mem + (j - i) * lsz)\<rparr> else lns ! j)"
proof (induction n lsz i mem lns rule: cache_new_lines_loop.induct)
  case (1 n lsz i mem lns)
  show ?case
  proof (cases "i < n")
    case True
    let ?l = "lns[i := (lns ! i)\<lparr>block := Some mem\<rparr>]"
    have unf: "cache_new_lines_loop n lsz i mem lns = cache_new_lines_loop n lsz (Suc i) (mem + lsz) ?l"
      using True by (subst cache_new_lines_loop.simps) simp
    have ih: "cache_new_lines_loop n lsz (Suc i) (mem + lsz) ?l ! j =
       (if Suc i \<le> j \<and> j < n then (?l ! j)\<lparr>block := Some (mem + lsz + (j - Suc i) * lsz)\<rparr> else ?l ! j)"
      using 1(1)[OF True] 1(2,3) by simp
    show ?thesis
    proof (cases "j = i")
      case True
      then show ?thesis using unf ih \<open>i < n\<close> 1(2,3) by simp
    next
      case False
      have "mem + lsz + (j - Suc i) * lsz = mem + (j - i) * lsz" if "Suc i \<le> j"
      proof -
        have "j - i = Suc (j - Suc i)" using that by simp
        then show ?thesis by simp
      qed
      then show ?thesis using unf ih False 1(2,3) by (auto simp: Suc_le_eq)
    qed
  next
    case False
    then show ?thesis by (subst cache_new_lines_loop.simps) auto
  qed
qed

lemma lines_loop_replicate:
  "cache_new_lines_loop n lsz 0 0 (replicate n l) = map (\<lambda>i. l\<lparr>block := Some (i * lsz)\<rparr>) [0..<n]"
  by (rule nth_equalityI) (simp_all add: lines_loop_length lines_loop_nth)

lemma unat_add_of_nat:
  "unat (w :: 64 word) + i < 2 ^ 64 \<Longrightarrow> unat (w + of_nat i) = unat w + i"
proof -
  assume a: "unat w + i < 2 ^ 64"
  then have "i < 2 ^ 64" by simp
  then have "unat (of_nat i :: 64 word) = i"
    by (simp add: unat_of_nat)
  with a show ?thesis
    by (simp add: unat_word_ariths)
qed

lemma all_invalid_update:
  "list_all (\<lambda>l. \<not> is_valid l) lns \<Longrightarrow> k < length lns \<Longrightarrow>
   lns[k := (lns ! k)\<lparr>is_valid := False\<rparr>] = lns"
proof -
  assume a: "list_all (\<lambda>l. \<not> is_valid l) lns" and k: "k < length lns"
  then have "\<not> is_valid (lns ! k)"
    by (simp add: list_all_length)
  then have "(lns ! k)\<lparr>is_valid := False\<rparr> = lns ! k"
    by simp
  then show ?thesis
    by simp
qed

lemma set_init_loop_ok:
  "unat a < 2 ^ 31 \<Longrightarrow> length lru = unat a \<Longrightarrow> unat first + unat a \<le> length lns \<Longrightarrow>
   length lns < 2 ^ 64 \<Longrightarrow> list_all (\<lambda>l. \<not> is_valid l) lns \<Longrightarrow> i \<le> unat a \<Longrightarrow>
   cache_set_init_loop a first i lns lru = Inr (lns, take i lru @ map of_nat [i..<unat a])"
proof (induction a first i lns lru rule: cache_set_init_loop.induct)
  case (1 assoc first i lns lru)
  show ?case
  proof (cases "i < unat assoc")
    case True
    have k: "unat (first + of_nat i) = unat first + i"
      using True 1(4,5) by (intro unat_add_of_nat) simp
    have kl: "unat first + i < length lns"
      using True 1(4) by simp
    have ne: "i \<noteq> 2 ^ 31 - 1"
      using True 1(2) by simp
    have upd: "lns[unat first + i := (lns ! (unat first + i))\<lparr>is_valid := False\<rparr>] = lns"
      using 1(6) kl by (rule all_invalid_update)
    have unf: "cache_set_init_loop assoc first i lns lru =
               cache_set_init_loop assoc first (Suc i) lns (lru[i := of_nat i])"
      using True k kl ne upd 1(3) by (subst cache_set_init_loop.simps) (simp add: Let_def)
    have ih: "cache_set_init_loop assoc first (Suc i) lns (lru[i := of_nat i]) =
              Inr (lns, take (Suc i) (lru[i := of_nat i]) @ map of_nat [Suc i..<unat assoc])"
      using 1(1)[OF True k[symmetric]] kl True ne 1(2-7) upd k by simp
    have "take (Suc i) (lru[i := of_nat i]) @ map of_nat [Suc i..<unat assoc]
          = take i lru @ map of_nat [i..<unat assoc]"
      using True 1(3) by (simp add: take_Suc_conv_app_nth upt_conv_Cons)
    with unf ih show ?thesis by simp
  next
    case False
    with 1(7) have "i = unat assoc" by simp
    with 1(3) show ?thesis by (subst cache_set_init_loop.simps) simp
  qed
qed

lemma set_init_loop_overflow:
  "2 ^ 31 \<le> unat a \<Longrightarrow> i \<le> 2 ^ 31 - 1 \<Longrightarrow> isl (cache_set_init_loop a first i lns lru)"
proof (induction a first i lns lru rule: cache_set_init_loop.induct)
  case (1 assoc first i lns lru)
  have lt: "i < unat assoc" using 1(2,3) by simp
  show ?case
  proof (cases "length lns \<le> unat (first + of_nat i) \<or> length lru \<le> i")
    case True
    then show ?thesis using lt by (subst cache_set_init_loop.simps) (simp add: Let_def)
  next
    case oob: False
    show ?thesis
    proof (cases "i = 2 ^ 31 - 1")
      case True
      then show ?thesis using lt oob by (subst cache_set_init_loop.simps) (simp add: Let_def)
    next
      case False
      then have "Suc i \<le> 2 ^ 31 - 1" using 1(3) by simp
      then have "isl (cache_set_init_loop assoc first (Suc i)
                   (lns[unat (first + of_nat i) := (lns ! unat (first + of_nat i))\<lparr>is_valid := False\<rparr>])
                   (lru[i := of_nat i]))"
        using 1(1)[OF lt refl oob False] 1(2) by simp
      then show ?thesis using lt oob False by (subst cache_set_init_loop.simps) (simp add: Let_def)
    qed
  qed
qed

lemma unat_times_8:
  "unat (a :: 64 word) < 2 ^ 31 \<Longrightarrow> unat (a * 8) div 8 = unat a"
proof -
  assume "unat a < 2 ^ 31"
  then have "unat a * 8 < 2 ^ 64" by simp
  then have "unat (a * 8) = unat a * 8"
    by (simp add: unat_word_ariths)
  then show ?thesis by simp
qed

lemma cache_set_init_ok:
  assumes "unat a < 2 ^ 31" "unat first + unat a \<le> length lns" "length lns < 2 ^ 64"
    "list_all (\<lambda>l. \<not> is_valid l) lns"
  shows "cache_set_init a lns first =
         Inr (\<lparr>first_index = first, lru_list = map of_nat [0..<unat a], num_marked = 0\<rparr>, lns)"
proof -
  have "cache_set_init_loop a first 0 lns (replicate (unat (a * 8) div 8) 0)
        = Inr (lns, take 0 (replicate (unat (a * 8) div 8) 0) @ map of_nat [0..<unat a])"
    using assms by (intro set_init_loop_ok) (simp_all add: unat_times_8)
  then show ?thesis
    by (simp add: cache_set_init_def)
qed

lemma cache_set_init_overflow:
  "2 ^ 31 \<le> unat a \<Longrightarrow> isl (cache_set_init a lns first)"
proof -
  assume "2 ^ 31 \<le> unat a"
  then have "isl (cache_set_init_loop a first 0 lns (replicate (unat (a * 8) div 8) 0))"
    by (rule set_init_loop_overflow) simp
  then show ?thesis
    by (auto simp: cache_set_init_def isl_def)
qed

lemma unat_of_nat_times:
  "i * unat (a :: 64 word) < 2 ^ 64 \<Longrightarrow> i < 2 ^ 64 \<Longrightarrow> unat (of_nat i * a) = i * unat a"
proof -
  assume a: "i * unat a < 2 ^ 64" and i: "i < 2 ^ 64"
  have "unat (of_nat i :: 64 word) = i"
    using i by (simp add: unat_of_nat)
  with a show ?thesis
    by (simp add: unat_word_ariths)
qed

lemma sets_loop_ok:
  "unat a < 2 ^ 31 \<Longrightarrow> n * unat a \<le> length lns \<Longrightarrow> length lns < 2 ^ 64 \<Longrightarrow> n < 2 ^ 64 \<Longrightarrow>
   list_all (\<lambda>l. \<not> is_valid l) lns \<Longrightarrow> length sts = n \<Longrightarrow> i \<le> n \<Longrightarrow> first = of_nat i * a \<Longrightarrow>
   cache_new_sets_loop n a i first lns sts =
     Inr (lns, take i sts @
            map (\<lambda>k. \<lparr>first_index = of_nat k * a, lru_list = map of_nat [0..<unat a],
                       num_marked = 0\<rparr>) [i..<n])"
proof (induction n a i first lns sts rule: cache_new_sets_loop.induct)
  case (1 n assoc i first lns sts)
  show ?case
  proof (cases "i < n")
    case True
    let ?s = "\<lparr>first_index = first, lru_list = map of_nat [0..<unat assoc], num_marked = 0\<rparr>"
    have "Suc i * unat assoc \<le> n * unat assoc"
      using True by (intro mult_le_mono1) simp
    then have le: "i * unat assoc + unat assoc \<le> length lns"
      using 1(3) by simp
    then have "i * unat assoc < 2 ^ 64" using 1(4) by simp
    then have uf: "unat first = i * unat assoc"
      using 1(9) 1(5) True by (simp add: unat_of_nat_times)
    have init: "cache_set_init assoc lns first = Inr (?s, lns)"
      using 1(2) le uf 1(4) 1(6) by (intro cache_set_init_ok) simp_all
    have unf: "cache_new_sets_loop n assoc i first lns sts =
               cache_new_sets_loop n assoc (Suc i) (first + assoc) lns (sts[i := ?s])"
      using True init by (subst cache_new_sets_loop.simps) simp
    have nx: "first + assoc = of_nat (Suc i) * assoc"
      using 1(9) by (simp add: algebra_simps)
    have ih: "cache_new_sets_loop n assoc (Suc i) (first + assoc) lns (sts[i := ?s]) =
              Inr (lns, take (Suc i) (sts[i := ?s]) @
                map (\<lambda>k. \<lparr>first_index = of_nat k * assoc, lru_list = map of_nat [0..<unat assoc],
                       num_marked = 0\<rparr>) [Suc i..<n])"
      using 1(1)[OF True init refl] 1(2-7) True nx by simp
    have "take (Suc i) (sts[i := ?s]) @
                map (\<lambda>k. \<lparr>first_index = of_nat k * assoc, lru_list = map of_nat [0..<unat assoc],
                       num_marked = 0\<rparr>) [Suc i..<n]
          = take i sts @
                map (\<lambda>k. \<lparr>first_index = of_nat k * assoc, lru_list = map of_nat [0..<unat assoc],
                       num_marked = 0\<rparr>) [i..<n]"
      using True 1(7) 1(9) by (simp add: take_Suc_conv_app_nth upt_conv_Cons)
    with unf ih show ?thesis by simp
  next
    case False
    with 1(8) have "i = n" by simp
    with 1(7) show ?thesis by (subst cache_new_sets_loop.simps) simp
  qed
qed

lemma sets_loop_overflow:
  "2 ^ 31 \<le> unat a \<Longrightarrow> i < n \<Longrightarrow> isl (cache_new_sets_loop n a i first lns sts)"
proof -
  assume a: "2 ^ 31 \<le> unat a" and i: "i < n"
  from a obtain e where "cache_set_init a lns first = Inl e"
    using cache_set_init_overflow[of a lns first] by (auto simp: isl_def)
  then show ?thesis
    using i by (subst cache_new_sets_loop.simps) simp
qed

lemma sets_loop_empty:
  "cache_new_sets_loop 0 a 0 first lns sts = Inr (lns, sts)"
  by (subst cache_new_sets_loop.simps) simp

subsection \<open>Conversions between the integer types\<close>

lemma unat_ucast_64_32:
  "unat (w :: 64 word) < 2 ^ 32 \<Longrightarrow> unat (ucast w :: 32 word) = unat w"
  by (simp add: unsigned_ucast_eq take_bit_nat_eq_self unsigned_take_bit_eq)

lemma sint_32_small:
  "unat (w :: 32 word) < 2 ^ 31 \<Longrightarrow> sint w = uint w"
proof -
  assume a: "unat w < 2 ^ 31"
  have "int (unat w) < int (2 ^ 31)"
    using a by (simp only: of_nat_less_iff)
  then have b: "uint w < 2 ^ 31" by simp
  have c: "- (2 ^ 31) \<le> uint w"
    by (rule order_trans[of _ 0]) simp_all
  have "sint w = signed_take_bit 31 (uint w)"
    by (simp add: sint_uint)
  also have "\<dots> = uint w"
    using c b by (rule signed_take_bit_int_eq_self)
  finally show ?thesis .
qed

lemma unat_ucast_32_8:
  "unat (w :: 32 word) < 2 ^ 8 \<Longrightarrow> unat (ucast w :: 8 word) = unat w"
  by (simp add: unsigned_ucast_eq take_bit_nat_eq_self unsigned_take_bit_eq)

lemma unat_ucast_8_64:
  "unat (ucast (w :: 8 word) :: 64 word) = unat w"
proof -
  have "unat w < 2 ^ 8" using unsigned_less[of w] by simp
  then have "unat w < 2 ^ 64" by simp
  then show ?thesis 
    by (simp add: unsigned_ucast_eq take_bit_nat_eq_self unsigned_take_bit_eq)
qed

subsection \<open>What \<open>cache_new\<close> returns\<close>

lemma maskbits_small:
  "unat w \<le> 62 \<Longrightarrow> maskbits w = Inr (2 ^ unat w - 1)"
proof -
  assume a: "unat w \<le> 62"
  then have "unat w < 2 ^ 31" by simp
  then have s: "sint w = uint w" by (rule sint_32_small)
  have "int (unat w) \<le> int 62" using a by (simp only: of_nat_le_iff)
  then have "uint w \<le> 62" by simp
  then show ?thesis
    by (simp add: maskbits_def s)
qed

lemma sets_loop_cache_new:
  assumes ov: "ns = 0 \<or> unat a < 2 ^ 31"
    and le: "unat ns * unat a \<le> length lns" and len: "length lns < 2 ^ 64"
    and inv: "list_all (\<lambda>l. \<not> is_valid l) lns"
  shows "cache_new_sets_loop (unat ns) a 0 0 lns (replicate (unat ns) s0) =
         Inr (lns, map (\<lambda>k. \<lparr>first_index = of_nat k * a, lru_list = map of_nat [0..<unat a],
                       num_marked = 0\<rparr>) [0..<unat (ns :: 64 word)])"
proof (cases "ns = 0")
  case True
  then show ?thesis by (simp add: sets_loop_empty)
next
  case False
  with ov have a: "unat a < 2 ^ 31" by simp
  have n: "unat ns < 2 ^ 64" using unsigned_less[of ns] by simp
  have "cache_new_sets_loop (unat ns) a 0 0 lns (replicate (unat ns) s0) =
        Inr (lns, take 0 (replicate (unat ns) s0) @
               map (\<lambda>k. \<lparr>first_index = of_nat k * a, lru_list = map of_nat [0..<unat a],
                       num_marked = 0\<rparr>) [0..<unat ns])"
    using a le len n inv by (intro sets_loop_ok) simp_all
  then show ?thesis by simp
qed

lemma lines_fit:
  "unat ((nl :: 64 word) div a) * unat a \<le> unat nl"
  by (simp add: unat_div)

lemma cache_new_lines_invalid:
  "list_all (\<lambda>l. \<not> is_valid l)
     (map (\<lambda>i. \<lparr>is_valid = False, is_dirty = False, is_marked = False, tag = 0,
                 block = Some (i * lsz)\<rparr>) [0..<n])"
  by (simp add: list_all_iff)

lemma cache_new_lines:
  "cache_new_lines_loop n lsz 0 0
     (replicate n \<lparr>is_valid = False, is_dirty = False, is_marked = False, tag = 0, block = None\<rparr>)
   = map (\<lambda>i. \<lparr>is_valid = False, is_dirty = False, is_marked = False, tag = 0,
                 block = Some (i * lsz)\<rparr>) [0..<n]"
  by (simp add: lines_loop_replicate)

lemma cache_new_sets:
  assumes "nl div a = 0 \<or> unat a < 2 ^ 31"
  shows "cache_new_sets_loop (unat (nl div a)) a 0 0
           (map (\<lambda>i. \<lparr>is_valid = False, is_dirty = False, is_marked = False, tag = 0,
                 block = Some (i * lsz)\<rparr>) [0..<unat nl])
           (replicate (unat (nl div a)) s0) =
         Inr (map (\<lambda>i. \<lparr>is_valid = False, is_dirty = False, is_marked = False, tag = 0,
                 block = Some (i * lsz)\<rparr>) [0..<unat nl],
              map (\<lambda>k. \<lparr>first_index = of_nat k * a, lru_list = map of_nat [0..<unat a],
                       num_marked = 0\<rparr>) [0..<unat (nl div a)])"
proof -
  have "unat nl < 2 ^ 64" using unsigned_less[of nl] by simp
  then show ?thesis
    using assms lines_fit[of nl a]
    by (intro sets_loop_cache_new) (simp_all add: cache_new_lines_invalid)
qed

lemma cache_new_sets_Inr:
  assumes "cache_new_sets_loop (unat (nl div a)) a 0 0
           (map (\<lambda>i. \<lparr>is_valid = False, is_dirty = False, is_marked = False, tag = 0,
                 block = Some (i * lsz)\<rparr>) [0..<unat nl])
           (replicate (unat (nl div a)) s0) = Inr (lns, sts)"
  shows "lns = map (\<lambda>i. \<lparr>is_valid = False, is_dirty = False, is_marked = False, tag = 0,
                 block = Some (i * lsz)\<rparr>) [0..<unat nl] \<and>
         sts = map (\<lambda>k. \<lparr>first_index = of_nat k * a, lru_list = map of_nat [0..<unat a],
                       num_marked = 0\<rparr>) [0..<unat (nl div a)]"
proof -
  have "nl div a = 0 \<or> unat a < 2 ^ 31"
  proof (rule ccontr)
    assume "\<not> (nl div a = 0 \<or> unat a < 2 ^ 31)"
    then have "0 < unat (nl div a)" and "2 ^ 31 \<le> unat a"
      by (simp_all add: unat_gt_0)
    then have "isl (cache_new_sets_loop (unat (nl div a)) a 0 0
           (map (\<lambda>i. \<lparr>is_valid = False, is_dirty = False, is_marked = False, tag = 0,
                 block = Some (i * lsz)\<rparr>) [0..<unat nl])
           (replicate (unat (nl div a)) s0))"
      by (intro sets_loop_overflow)
    with assms show False by simp
  qed
  from cache_new_sets[OF this, of lsz s0] assms show ?thesis by simp
qed

lemma cache_new_zero:
  "bs = 0 \<or> a = 0 \<Longrightarrow> cache_new nb bs a p = Inl DivisionByZero"
  by (auto simp: cache_new_def Let_def)

lemma cache_new_Inr:
  assumes "cache_new nb bs a p = Inr c"
  shows "bs \<noteq> 0 \<and> a \<noteq> 0 \<and>
         num_lines c = nb div bs \<and> num_sets c = nb div bs div a \<and>
         line_size c = bs \<and> associativity c = a \<and> policies c = p \<and>
         memory c = replicate (unat nb) None \<and>
         lines c = map (\<lambda>i. \<lparr>is_valid = False, is_dirty = False, is_marked = False, tag = 0,
                 block = Some (i * unat bs)\<rparr>) [0..<unat (nb div bs)] \<and>
         sets c = map (\<lambda>k. \<lparr>first_index = of_nat k * a, lru_list = map of_nat [0..<unat a],
                       num_marked = 0\<rparr>) [0..<unat (nb div bs div a)] \<and>
         access_count c = 0 \<and> miss_count c = 0"
proof -
  from assms have bs: "bs \<noteq> 0" and a: "a \<noteq> 0"
    by (auto simp: cache_new_def Let_def split: if_splits)
  from assms bs a obtain lns sts where
    loop: "cache_new_sets_loop (unat (nb div bs div a)) a 0 0
             (map (\<lambda>i. \<lparr>is_valid = False, is_dirty = False, is_marked = False, tag = 0,
                 block = Some (i * unat bs)\<rparr>) [0..<unat (nb div bs)])
             (replicate (unat (nb div bs div a)) \<lparr>first_index = 0, lru_list = [], num_marked = 0\<rparr>)
           = Inr (lns, sts)"
    and c: "num_lines c = nb div bs" "num_sets c = nb div bs div a" "line_size c = bs"
       "associativity c = a" "policies c = p" "memory c = replicate (unat nb) None"
       "lines c = lns" "sets c = sts" "access_count c = 0" "miss_count c = 0"
    by (auto simp: cache_new_def Let_def cache_new_lines split: sum.splits)
  from cache_new_sets_Inr[OF loop] c bs a show ?thesis by simp
qed

lemma cache_new_success:
  assumes bs: "bs \<noteq> 0" and a: "a \<noteq> 0"
    and sh: "unat (logbase2 bs) + unat (logbase2 (nb div bs div a)) \<le> 8"
    and ov: "nb div bs div a = 0 \<or> unat a < 2 ^ 31"
  shows "cache_new nb bs a p =
     Inr \<lparr>num_sets = nb div bs div a, num_lines = nb div bs, line_size = bs,
          associativity = a,
          block_offset_mask = 2 ^ unat (logbase2 bs) - 1,
          cache_index_mask =
            push_bit (unat (logbase2 bs)) (2 ^ unat (logbase2 (nb div bs div a)) - 1),
          cache_index_shift = of_nat (unat (logbase2 bs)),
          tag_mask =
            push_bit (unat (logbase2 bs) + unat (logbase2 (nb div bs div a)))
              (2 ^ (8 - (unat (logbase2 bs) + unat (logbase2 (nb div bs div a)))) - 1),
          tag_shift = of_nat (unat (logbase2 bs) + unat (logbase2 (nb div bs div a))),
          policies = p,
          memory = replicate (unat nb) None,
          lines = map (\<lambda>i. \<lparr>is_valid = False, is_dirty = False, is_marked = False, tag = 0,
                 block = Some (i * unat bs)\<rparr>) [0..<unat (nb div bs)],
          sets = map (\<lambda>k. \<lparr>first_index = of_nat k * a, lru_list = map of_nat [0..<unat a],
                       num_marked = 0\<rparr>) [0..<unat (nb div bs div a)],
          access_count = 0, miss_count = 0\<rparr>"
proof -
  define lb where "lb = logbase2 bs"
  define li where "li = logbase2 (nb div bs div a)"
  define ob :: "32 word" where "ob = ucast lb"
  define ib :: "32 word" where "ib = ucast li"
  define ts :: "8 word" where "ts = ucast (ob + ib)"
  from sh have s: "unat lb + unat li \<le> 8" by (simp add: lb_def li_def)
  have uob: "unat ob = unat lb" unfolding ob_def using s by (intro unat_ucast_64_32) simp
  have uib: "unat ib = unat li" unfolding ib_def using s by (intro unat_ucast_64_32) simp
  have m1: "maskbits ob = Inr (2 ^ unat lb - 1)"
    using maskbits_small[of ob] s uob by simp
  have m2: "maskbits ib = Inr (2 ^ unat li - 1)"
    using maskbits_small[of ib] s uib by simp
  have usum: "unat (ob + ib) = unat lb + unat li"
    using s uob uib by (simp add: unat_word_ariths)
  have uts: "unat ts = unat lb + unat li"
    unfolding ts_def using usum s by (simp add: unat_ucast_32_8)
  have u64: "unat (ucast ts :: 64 word) = unat lb + unat li"
    using uts by (simp add: unat_ucast_8_64)
  have "unat (8 - (ucast ts :: 64 word)) = 8 - (unat lb + unat li)"
    using u64 s by (simp add: unat_sub word_le_nat_alt)
  then have u32: "unat (ucast (8 - (ucast ts :: 64 word)) :: 32 word) = 8 - (unat lb + unat li)"
    by (simp add: unat_ucast_64_32)
  have m3: "maskbits (ucast (8 - (ucast ts :: 64 word))) = Inr (2 ^ (8 - (unat lb + unat li)) - 1)"
    using maskbits_small[of "ucast (8 - (ucast ts :: 64 word))"] u32 by simp
  have tsw: "ts = of_nat (unat lb + unat li)"
    by (metis uts of_nat_unat ucast_id)
  have obw: "ob = of_nat (unat lb)"
    by (metis uob of_nat_unat ucast_id)
  note loop = cache_new_sets[OF ov, of "unat bs" "\<lparr>first_index = 0, lru_list = [], num_marked = 0\<rparr>"]
  have "cache_new nb bs a p =
     Inr \<lparr>num_sets = nb div bs div a, num_lines = nb div bs, line_size = bs,
          associativity = a,
          block_offset_mask = 2 ^ unat lb - 1,
          cache_index_mask = push_bit (unat ob) (2 ^ unat li - 1),
          cache_index_shift = ob,
          tag_mask = push_bit (unat ts) (2 ^ (8 - (unat lb + unat li)) - 1),
          tag_shift = ts,
          policies = p,
          memory = replicate (unat nb) None,
          lines = map (\<lambda>i. \<lparr>is_valid = False, is_dirty = False, is_marked = False, tag = 0,
                 block = Some (i * unat bs)\<rparr>) [0..<unat (nb div bs)],
          sets = map (\<lambda>k. \<lparr>first_index = of_nat k * a, lru_list = map of_nat [0..<unat a],
                       num_marked = 0\<rparr>) [0..<unat (nb div bs div a)],
          access_count = 0, miss_count = 0\<rparr>"
    using bs a
    unfolding cache_new_def Let_def cache_new_lines
    by (simp only: m1[unfolded ob_def lb_def] m2[unfolded ib_def li_def]
          m3[unfolded ts_def ob_def ib_def lb_def li_def] loop
          ts_def ob_def ib_def lb_def li_def
          if_False sum.case prod.case)
  then show ?thesis
    by (simp only: uob uts) (simp only: tsw obw lb_def li_def)
qed

subsection \<open>When \<open>cache_new\<close> returns a cache\<close>

lemma unat_halve: "1 < (v :: 64 word) \<Longrightarrow> unat (drop_bit 1 v) < unat v"
proof -
  assume "1 < v"
  then have "0 < unat v" by (simp add: word_less_nat_alt)
  then have "unat v div 2 < unat v" by simp
  then show ?thesis by (simp add: drop_bit_eq_div unat_div)
qed

lemma logbase2_loop_acc:
  "logbase2_loop v ans = ans + logbase2_loop v 0"
proof (induction "unat v" arbitrary: v ans rule: less_induct)
  case less
  show ?case
  proof (cases "1 < v")
    case True
    have a: "logbase2_loop v ans = logbase2_loop (drop_bit 1 v) (ans + 1)"
      using True by (subst logbase2_loop.simps) simp
    have b: "logbase2_loop v 0 = logbase2_loop (drop_bit 1 v) 1"
      using True by (subst logbase2_loop.simps) simp
    have c: "logbase2_loop (drop_bit 1 v) (ans + 1) = ans + 1 + logbase2_loop (drop_bit 1 v) 0"
      using True by (intro less) (rule unat_halve)
    have d: "logbase2_loop (drop_bit 1 v) 1 = 1 + logbase2_loop (drop_bit 1 v) 0"
      using True by (intro less) (rule unat_halve)
    show ?thesis by (simp only: a b c d add.assoc)
  next
    case False
    then show ?thesis by (simp add: logbase2_loop.simps)
  qed
qed

lemma logbase2_step:
  "1 < v \<Longrightarrow> logbase2 v = 1 + logbase2 (drop_bit 1 v)"
proof -
  assume v: "1 < v"
  have "logbase2_loop v 0 = logbase2_loop (drop_bit 1 v) 1"
    using v by (subst logbase2_loop.simps) simp
  also have "\<dots> = 1 + logbase2_loop (drop_bit 1 v) 0"
    by (rule logbase2_loop_acc)
  finally show ?thesis by (simp add: logbase2_def)
qed

lemma logbase2_small: "\<not> 1 < v \<Longrightarrow> logbase2 v = 0"
  by (simp add: logbase2_def logbase2_loop.simps)

lemma logbase2_bound:
  "unat v < 2 ^ Suc k \<Longrightarrow> unat (logbase2 v) \<le> k"
proof (induction k arbitrary: v)
  case 0
  then have "\<not> 1 < v" by (simp add: word_less_nat_alt)
  then show ?case by (simp add: logbase2_small)
next
  case (Suc k)
  show ?case
  proof (cases "1 < v")
    case True
    have "unat (drop_bit 1 v) = unat v div 2"
      by (simp add: drop_bit_eq_div unat_div)
    then have "unat (drop_bit 1 v) < 2 ^ Suc k"
      using Suc.prems by simp
    then have "unat (logbase2 (drop_bit 1 v)) \<le> k" by (rule Suc.IH)
    moreover have "unat (1 + logbase2 (drop_bit 1 v)) \<le> 1 + unat (logbase2 (drop_bit 1 v))"
    proof -
      have "unat (1 + logbase2 (drop_bit 1 v)) =
            (unat (1 :: 64 word) + unat (logbase2 (drop_bit 1 v))) mod 2 ^ 64"
        by (simp only: unat_word_ariths) simp
      also have "\<dots> \<le> unat (1 :: 64 word) + unat (logbase2 (drop_bit 1 v))"
        by (rule mod_less_eq_dividend)
      finally show ?thesis by simp
    qed
    ultimately have "unat (1 + logbase2 (drop_bit 1 v)) \<le> Suc k" by simp
    then show ?thesis
      using True by (simp only: logbase2_step)
  next
    case False
    then show ?thesis by (simp add: logbase2_small)
  qed
qed

lemma logbase2_le_63: "unat (logbase2 v) \<le> 63"
proof -
  have "unat v < 2 ^ Suc 63" using unsigned_less[of v] by simp
  then show ?thesis by (rule logbase2_bound)
qed

lemma sint_32_nonneg:
  "0 \<le> sint (w :: 32 word) \<Longrightarrow> sint w = uint w"
proof -
  assume nn: "0 \<le> sint w"
  have lt: "uint w < 2 ^ 32" using uint_bounded[of w] by simp
  have "take_bit 32 (uint w) = uint w"
    using lt by (intro take_bit_int_eq_self) simp_all
  then have e: "sint w = uint w - 2 ^ 32 * of_bool (bit (uint w) 31)"
    by (simp add: sint_uint signed_take_bit_eq_take_bit_minus)
  show ?thesis
  proof (cases "bit (uint w) 31")
    case True
    with e lt have "sint w < 0" by simp
    with nn show ?thesis by simp
  next
    case False
    with e show ?thesis by simp
  qed
qed

lemma maskbits_Inr:
  "maskbits w = Inr m \<Longrightarrow> unat w \<le> 62"
proof -
  assume "maskbits w = Inr m"
  then have a: "0 \<le> sint w" and b: "sint w \<le> 62"
    by (simp_all add: maskbits_def split: if_splits)
  from a have "sint w = uint w" by (rule sint_32_nonneg)
  with b have "uint w \<le> 62" by simp
  then have "int (unat w) \<le> int 62" by simp
  then show ?thesis by (simp only: of_nat_le_iff)
qed

lemma unat_8_minus:
  assumes "8 < unat (x :: 64 word)" "unat x \<le> 124"
  shows "unat (ucast (8 - x) :: 32 word) = 2 ^ 32 + 8 - unat x"
proof -
  have "unat (8 - x) = 2 ^ 64 + 8 - unat x"
    using assms by (simp add: unat_sub_if_size word_size)
  also have "\<dots> = (2 ^ 32 - 1) * 2 ^ 32 + (2 ^ 32 + 8 - unat x)"
    using assms by simp
  finally have e: "unat (8 - x) = (2 ^ 32 + 8 - unat x) + (2 ^ 32 - 1) * 2 ^ 32"
    by simp
  have "unat (ucast (8 - x) :: 32 word) = unat (8 - x) mod 2 ^ 32"
    by (simp add: unsigned_ucast_eq unsigned_take_bit_eq take_bit_eq_mod)
  also have "\<dots> = (2 ^ 32 + 8 - unat x) mod 2 ^ 32"
    by (simp only: e mod_mult_self1)
  also have "\<dots> = 2 ^ 32 + 8 - unat x"
    using assms by (intro mod_less) simp
  finally show ?thesis .
qed

lemma cache_new_shifts:
  assumes "cache_new nb bs a p = Inr c"
  shows "unat (logbase2 bs) + unat (logbase2 (nb div bs div a)) \<le> 8"
proof -
  define lb where "lb = logbase2 bs"
  define li where "li = logbase2 (nb div bs div a)"
  define ob :: "32 word" where "ob = ucast lb"
  define ib :: "32 word" where "ib = ucast li"
  define ts :: "8 word" where "ts = ucast (ob + ib)"
  from assms obtain m1 m2 m3 where
    m1: "maskbits ob = Inr m1" and m2: "maskbits ib = Inr m2"
    and m3: "maskbits (ucast (8 - (ucast ts :: 64 word))) = Inr m3"
    unfolding ob_def ib_def ts_def lb_def li_def
    by (auto simp: cache_new_def Let_def split: if_splits sum.splits)
  have "unat lb \<le> 63" "unat li \<le> 63"
    unfolding lb_def li_def by (rule logbase2_le_63)+
  then have uob: "unat ob = unat lb" and uib: "unat ib = unat li"
    unfolding ob_def ib_def by (simp_all add: unat_ucast_64_32)
  from maskbits_Inr[OF m1] maskbits_Inr[OF m2] uob uib
  have s: "unat ob + unat ib \<le> 124" by simp
  then have "unat (ob + ib) = unat ob + unat ib"
    by (simp add: unat_word_ariths)
  then have uts: "unat ts = unat ob + unat ib"
    unfolding ts_def using s by (simp add: unat_ucast_32_8)
  then have u64: "unat (ucast ts :: 64 word) = unat ob + unat ib"
    by (simp add: unat_ucast_8_64)
  have "unat ob + unat ib \<le> 8"
  proof (rule ccontr)
    assume "\<not> unat ob + unat ib \<le> 8"
    then have "8 < unat (ucast ts :: 64 word)" using u64 by simp
    moreover have "unat (ucast ts :: 64 word) \<le> 124" using u64 s by simp
    ultimately have "unat (ucast (8 - (ucast ts :: 64 word)) :: 32 word)
                     = 2 ^ 32 + 8 - unat (ucast ts :: 64 word)"
      by (rule unat_8_minus)
    with maskbits_Inr[OF m3] u64 s show False by simp
  qed
  then show ?thesis
    using uob uib by (simp add: lb_def li_def)
qed

lemma cache_new_Inr_iff:
  "(\<exists>c. cache_new nb bs a p = Inr c) \<longleftrightarrow>
     bs \<noteq> 0 \<and> a \<noteq> 0 \<and>
     unat (logbase2 bs) + unat (logbase2 (nb div bs div a)) \<le> 8 \<and>
     (nb div bs div a = 0 \<or> unat a < 2 ^ 31)"
proof
  assume "\<exists>c. cache_new nb bs a p = Inr c"
  then obtain c where c: "cache_new nb bs a p = Inr c" ..
  have ba: "bs \<noteq> 0 \<and> a \<noteq> 0" using cache_new_Inr[OF c] by simp
  from c ba obtain lns sts where
    loop: "cache_new_sets_loop (unat (nb div bs div a)) a 0 0
             (map (\<lambda>i. \<lparr>is_valid = False, is_dirty = False, is_marked = False, tag = 0,
                 block = Some (i * unat bs)\<rparr>) [0..<unat (nb div bs)])
             (replicate (unat (nb div bs div a)) \<lparr>first_index = 0, lru_list = [], num_marked = 0\<rparr>)
           = Inr (lns, sts)"
    by (auto simp: cache_new_def Let_def cache_new_lines split: sum.splits)
  have ov: "nb div bs div a = 0 \<or> unat a < 2 ^ 31"
  proof (rule ccontr)
    assume "\<not> (nb div bs div a = 0 \<or> unat a < 2 ^ 31)"
    then have "0 < unat (nb div bs div a)" and "2 ^ 31 \<le> unat a"
      by (simp_all add: unat_gt_0)
    then have "isl (cache_new_sets_loop (unat (nb div bs div a)) a 0 0
             (map (\<lambda>i. \<lparr>is_valid = False, is_dirty = False, is_marked = False, tag = 0,
                 block = Some (i * unat bs)\<rparr>) [0..<unat (nb div bs)])
             (replicate (unat (nb div bs div a)) \<lparr>first_index = 0, lru_list = [], num_marked = 0\<rparr>))"
      by (intro sets_loop_overflow)
    with loop show False by simp
  qed
  from ba cache_new_shifts[OF c] ov
  show "bs \<noteq> 0 \<and> a \<noteq> 0 \<and>
     unat (logbase2 bs) + unat (logbase2 (nb div bs div a)) \<le> 8 \<and>
     (nb div bs div a = 0 \<or> unat a < 2 ^ 31)"
    by simp
next
  assume "bs \<noteq> 0 \<and> a \<noteq> 0 \<and>
     unat (logbase2 bs) + unat (logbase2 (nb div bs div a)) \<le> 8 \<and>
     (nb div bs div a = 0 \<or> unat a < 2 ^ 31)"
  then show "\<exists>c. cache_new nb bs a p = Inr c"
    using cache_new_success[of bs a nb p] by blast
qed

subsection \<open>The tag that the stored mask and shift decode\<close>

text \<open>
  The mask keeps \<open>8 - tag_shift\<close> bits: the decoded tag is that many bits of the
  address above the index, and the bits from bit 8 on are dropped.
\<close>

lemma tag_window:
  "drop_bit n ((x :: 64 word) AND push_bit n (2 ^ m - 1)) = take_bit m (drop_bit n x)"
proof -
  have m: "(2 :: 64 word) ^ m - 1 = mask m" by (simp add: mask_eq_exp_minus_1)
  show ?thesis
    unfolding m
    by (rule bit_eqI) (auto simp: bit_simps dest: bit_imp_le_length)
qed

lemma decode_tag_window:
  assumes bs: "bs \<noteq> 0" and a: "a \<noteq> 0"
    and sh: "unat (logbase2 bs) + unat (logbase2 (nb div bs div a)) \<le> 8"
    and ov: "nb div bs div a = 0 \<or> unat a < 2 ^ 31"
  shows "\<exists>c. cache_new nb bs a p = Inr c \<and>
           unat (tag_shift c) = unat (logbase2 bs) + unat (logbase2 (nb div bs div a)) \<and>
           decode_tag c address =
             take_bit (8 - unat (tag_shift c)) (drop_bit (unat (tag_shift c)) address)"
proof -
  let ?t = "unat (logbase2 bs) + unat (logbase2 (nb div bs div a))"
  have "?t < 2 ^ 8" using sh by simp
  then have u: "unat (of_nat ?t :: 8 word) = ?t"
    by (simp only: unat_of_nat) simp
  show ?thesis
    by (subst cache_new_success[OF bs a sh ov])
       (simp only: sum.inject cache.simps decode_tag_def u tag_window simp_thms ex_simps)
qed

section \<open>Facts about \<open>cache_set_add\<close>\<close>

text \<open>
  What the statements that set a line up change, when they succeed: the tag, the valid
  bit and the bytes of the block. The dirty bit, the mark and backing memory stay.
\<close>

lemma cache_set_add_setup_line:
  assumes "cache_set_add_setup c h line address tg = Inr (l', c', h')"
  shows "l' = line \<and> h' = h \<and>
         tag (lines c' ! line) = tg \<and> is_valid (lines c' ! line) \<and>
         is_dirty (lines c' ! line) = is_dirty (lines c ! line) \<and>
         is_marked (lines c' ! line) = is_marked (lines c ! line) \<and>
         block (lines c' ! line) = block (lines c ! line) \<and>
         (\<exists>dst. block (lines c ! line) = Some dst \<and>
            memory c' = take dst (memory c) @
              map (\<lambda>k. Some (h ((address AND NOT (block_offset_mask c)) + of_nat k)))
                [0..<unat (line_size c)] @
              drop (dst + unat (line_size c)) (memory c))"
  using assms
  by (auto simp: cache_set_add_setup_def memcpy_block_def Let_def
           split: if_splits option.splits sum.splits)

section \<open>Facts about \<open>cache_line_make_mru\<close>\<close>

lemma mru_find_first:
  "x \<notin> set ys \<Longrightarrow> i \<le> length ys \<Longrightarrow>
   cache_line_make_mru_find (ys @ x # zs) x (length (ys @ x # zs)) i = Inr (of_nat (length ys))"
proof (induction "length ys - i" arbitrary: i)
  case 0
  then have i: "i = length ys" by simp
  show ?case
    by (subst cache_line_make_mru_find.simps) (simp add: i)
next
  case (Suc d)
  then have lt: "i < length ys" by simp
  then have "(ys @ x # zs) ! i = ys ! i" by (simp add: nth_append)
  moreover have "ys ! i \<noteq> x" using lt Suc.prems(1) by (metis nth_mem)
  ultimately have "cache_line_make_mru_find (ys @ x # zs) x (length (ys @ x # zs)) i =
        cache_line_make_mru_find (ys @ x # zs) x (length (ys @ x # zs)) (Suc i)"
    using lt by (subst cache_line_make_mru_find.simps) simp
  moreover have "cache_line_make_mru_find (ys @ x # zs) x (length (ys @ x # zs)) (Suc i)
                 = Inr (of_nat (length ys))"
    using Suc lt by (intro Suc.hyps(1)) simp_all
  ultimately show ?case by simp
qed

lemma mru_shift_from:
  "0 < i \<Longrightarrow> i \<le> length l \<Longrightarrow>
   cache_line_make_mru_shift (length l) i l = Inr (take (i - 1) l @ drop i l @ [last l])"
proof (induction "length l - i" arbitrary: i l)
  case 0
  then have i: "i = length l" by simp
  with 0 have "l \<noteq> []" by auto
  then have "butlast l @ [last l] = l"
    by simp
  then have "take (length l - 1) l @ [last l] = l"
    by (simp only: butlast_conv_take)
  then show ?case
    by (subst cache_line_make_mru_shift.simps) (simp add: i)
next
  case (Suc d)
  then have lt: "i < length l" by simp
  let ?l = "l[i - 1 := l ! i]"
  have unf: "cache_line_make_mru_shift (length l) i l = cache_line_make_mru_shift (length ?l) (Suc i) ?l"
    using lt Suc.prems(1) by (subst cache_line_make_mru_shift.simps) simp
  have ih: "cache_line_make_mru_shift (length ?l) (Suc i) ?l
            = Inr (take (Suc i - 1) ?l @ drop (Suc i) ?l @ [last ?l])"
    using Suc lt by (intro Suc.hyps(1)) simp_all
  have l1: "last ?l = last l"
  proof -
    have "l \<noteq> []" using lt by auto
    moreover have "i - 1 \<noteq> length l - 1" using lt Suc.prems(1) by simp
    ultimately show ?thesis by (simp add: last_list_update)
  qed
  have l2: "drop (Suc i) ?l = drop (Suc i) l"
    by simp
  have l3: "take i ?l = take (i - 1) l @ [l ! i]"
  proof -
    have "i = Suc (i - 1)" using Suc.prems(1) by simp
    then have "take i ?l = take (Suc (i - 1)) ?l" by simp
    also have "\<dots> = take (i - 1) ?l @ [?l ! (i - 1)]"
      using lt by (intro take_Suc_conv_app_nth) simp
    also have "\<dots> = take (i - 1) l @ [l ! i]"
      using lt by simp
    finally show ?thesis .
  qed
  have l4: "drop i l = l ! i # drop (Suc i) l"
    using lt by (simp add: Cons_nth_drop_Suc)
  show ?case
    using unf ih l1 l2 l3 l4 by simp
qed

lemma unat_index_plus_1:
  "k < unat (a :: 64 word) \<Longrightarrow> unat (of_nat k + 1 :: 64 word) = Suc k"
proof -
  assume k: "k < unat a"
  have "unat a < 2 ^ 64" using unsigned_less[of a] by simp
  with k have "Suc k < 2 ^ 64" by simp
  then have "unat (of_nat (Suc k) :: 64 word) = Suc k"
    by (simp only: unat_of_nat) simp
  then show ?thesis by (simp add: add.commute)
qed

lemma make_mru_split:
  assumes len: "length (ys @ x # zs) = unat (associativity c)"
    and ys: "x \<notin> set ys" and l: "lru_list s = ys @ x # zs"
  shows "cache_line_make_mru c s x = Inr (s\<lparr>lru_list := ys @ zs @ [x]\<rparr>)"
proof -
  let ?n = "unat (associativity c)"
  have f: "cache_line_make_mru_find (lru_list s) x ?n 0 = Inr (of_nat (length ys))"
    using mru_find_first[OF ys, of 0 zs] len l by simp
  have k: "length ys < ?n" using len by simp
  have u: "unat (of_nat (length ys) + 1 :: 64 word) = Suc (length ys)"
    using k by (rule unat_index_plus_1)
  have "cache_line_make_mru_shift (length (ys @ x # zs)) (Suc (length ys)) (ys @ x # zs)
        = Inr (take (Suc (length ys) - 1) (ys @ x # zs) @ drop (Suc (length ys)) (ys @ x # zs)
               @ [last (ys @ x # zs)])"
    by (rule mru_shift_from) simp_all
  then have sh: "cache_line_make_mru_shift ?n (Suc (length ys)) (lru_list s)
        = Inr (ys @ zs @ [last (x # zs)])"
    using len l by simp
  have upd: "(ys @ zs @ [last (x # zs)])[?n - 1 := x] = ys @ zs @ [x]"
  proof -
    have "?n - 1 = length (ys @ zs)" using len by simp
    then show ?thesis
      by (metis append.assoc list_update_length)
  qed
  have n0: "?n \<noteq> 0" using k by simp
  have ll: "\<not> length (ys @ zs @ [last (x # zs)]) \<le> ?n - 1"
    using len by simp
  show ?thesis
    unfolding cache_line_make_mru_def Let_def
    using n0 ll by (simp only: f u sh upd sum.case) simp
qed

lemma make_mru_remove1:
  assumes len: "length (lru_list s) = unat (associativity c)" and x: "x \<in> set (lru_list s)"
  shows "cache_line_make_mru c s x = Inr (s\<lparr>lru_list := remove1 x (lru_list s) @ [x]\<rparr>)"
proof -
  from x obtain ys zs where l: "lru_list s = ys @ x # zs" and ys: "x \<notin> set ys"
    by (meson split_list_first)
  have "remove1 x (lru_list s) = ys @ zs"
    using l ys by (simp add: remove1_append)
  then show ?thesis
    using make_mru_split[of ys x zs c s] len l ys by simp
qed

section \<open>Some caches\<close>

lemma logbase2_16: "logbase2 16 = 4"
  by (simp add: logbase2_def logbase2_loop.simps)

lemma logbase2_8: "logbase2 8 = 3"
  by (simp add: logbase2_def logbase2_loop.simps)

lemma logbase2_3: "logbase2 3 = 1"
  by (simp add: logbase2_def logbase2_loop.simps)

lemma logbase2_1: "logbase2 1 = 0"
  by (simp add: logbase2_def logbase2_loop.simps)

lemma cache_new_256_16_2:
  "cache_new 256 16 2 p =
     Inr \<lparr>num_sets = 8, num_lines = 16, line_size = 16, associativity = 2,
          block_offset_mask = 0xF, cache_index_mask = 0x70, cache_index_shift = 4,
          tag_mask = 0x80, tag_shift = 7, policies = p,
          memory = replicate 256 None,
          lines = map (\<lambda>i. \<lparr>is_valid = False, is_dirty = False, is_marked = False, tag = 0,
                 block = Some (i * 16)\<rparr>) [0..<16],
          sets = map (\<lambda>k. \<lparr>first_index = of_nat k * 2, lru_list = [0, 1],
                       num_marked = 0\<rparr>) [0..<8],
          access_count = 0, miss_count = 0\<rparr>"
proof -
  have d: "(256 :: 64 word) div 16 = 16" "(16 :: 64 word) div 2 = 8" by simp_all
  have u: "[0..<2] = [0, Suc 0]" by (simp add: upt_rec)
  show ?thesis
    by (subst cache_new_success) (simp_all add: d logbase2_16 logbase2_8 u)
qed

lemma cache_new_100_16_2:
  "cache_new 100 16 2 p =
     Inr \<lparr>num_sets = 3, num_lines = 6, line_size = 16, associativity = 2,
          block_offset_mask = 0xF, cache_index_mask = 0x10, cache_index_shift = 4,
          tag_mask = 0xE0, tag_shift = 5, policies = p,
          memory = replicate 100 None,
          lines = map (\<lambda>i. \<lparr>is_valid = False, is_dirty = False, is_marked = False, tag = 0,
                 block = Some (i * 16)\<rparr>) [0..<6],
          sets = map (\<lambda>k. \<lparr>first_index = of_nat k * 2, lru_list = [0, 1],
                       num_marked = 0\<rparr>) [0..<3],
          access_count = 0, miss_count = 0\<rparr>"
proof -
  have d: "(100 :: 64 word) div 16 = 6" "(6 :: 64 word) div 2 = 3" by simp_all
  have u: "[0..<2] = [0, Suc 0]" by (simp add: upt_rec)
  show ?thesis
    by (subst cache_new_success) (simp_all add: d logbase2_16 logbase2_3 u)
qed

lemma cache_new_32_16_2:
  "cache_new 32 16 2 p =
     Inr \<lparr>num_sets = 1, num_lines = 2, line_size = 16, associativity = 2,
          block_offset_mask = 0xF, cache_index_mask = 0, cache_index_shift = 4,
          tag_mask = 0xF0, tag_shift = 4, policies = p,
          memory = replicate 32 None,
          lines = map (\<lambda>i. \<lparr>is_valid = False, is_dirty = False, is_marked = False, tag = 0,
                 block = Some (i * 16)\<rparr>) [0..<2],
          sets = map (\<lambda>k. \<lparr>first_index = of_nat k * 2, lru_list = [0, 1],
                       num_marked = 0\<rparr>) [0..<1],
          access_count = 0, miss_count = 0\<rparr>"
proof -
  have d: "(32 :: 64 word) div 16 = 2" "(2 :: 64 word) div 2 = 1" by simp_all
  have u: "[0..<2] = [0, Suc 0]" by (simp add: upt_rec)
  show ?thesis
    by (subst cache_new_success) (simp_all add: d logbase2_16 logbase2_1 u)
qed

section \<open>The claims\<close>

text \<open>
  Claim C1: for every address within the address width, the decoded tag
  \<open>(address & tag_mask) >> tag_shift\<close>, with \<open>tag_mask\<close> as \<open>cache_new\<close> stores it, is
  the whole of the address above the offset and index bits.

  \<open>cache_new\<close> builds the mask with \<open>maskbits(sizeof(uintptr_t) - tag_shift)\<close>, and
  \<open>sizeof\<close> counts bytes: the mask is \<open>8 - tag_shift\<close> bits wide, not
  \<open>64 - tag_shift\<close>. For 256 bytes, lines of 16 bytes and associativity 2 the shift is
  7 and the mask is the single bit \<open>0x80\<close>: the address \<open>0x100\<close> decodes to tag 0,
  while its bits above the offset and the index are \<open>0x100 >> 7 = 2\<close>. In general
  the decoded tag is \<open>8 - tag_shift\<close> bits of the address (\<open>decode_tag_window\<close>).
\<close>

theorem C1_tag_mask_counts_bytes:
  "map_sum id (\<lambda>c. (tag_mask c, tag_shift c, decode_tag c 0x100)) (cache_new 256 16 2 p)
     = Inr (0x80, 7, 0)
   \<and> drop_bit 7 (0x100 :: 64 word) = 2"
  by (simp add: cache_new_256_16_2 decode_tag_def)

text \<open>
  A total size that is not a power of two is accepted: 100 bytes in lines of 16 bytes
  with associativity 2 give a cache of 6 lines and 3 sets, the last 4 bytes being
  dropped by the division.
\<close>

theorem C2_counterexample:
  "\<not> isl (cache_new 100 16 2 0)
   \<and> map_sum id (\<lambda>c. (num_lines c, num_sets c)) (cache_new 100 16 2 0) = Inr (6, 3)"
  by (simp add: cache_new_100_16_2)

text \<open>
  Claim C2, as the code has it: \<open>cache_new\<close> checks none of its arguments. With a
  block size or an associativity of zero no cache is produced, because the division
  traps. With any other arguments (powers of two or not, associativity dividing the
  number of lines or not, zero bytes in total) it produces a cache whose \<open>num_lines\<close>
  and \<open>num_sets\<close> are the quotients rounded down, as long as the shifts and the loop
  counter of the C code stay defined: \<open>log2(block_size) + log2(num_sets) \<le> 8\<close>, and
  an associativity below \<open>2^31\<close> unless there is no set.
\<close>

theorem C2_no_validation:
  "(bs = 0 \<or> a = 0 \<longrightarrow> cache_new nb bs a p = Inl DivisionByZero) \<and>
   (bs \<noteq> 0 \<and> a \<noteq> 0 \<and>
    unat (logbase2 bs) + unat (logbase2 (nb div bs div a)) \<le> 8 \<and>
    (nb div bs div a = 0 \<or> unat a < 2 ^ 31) \<longrightarrow>
      (\<exists>c. cache_new nb bs a p = Inr c \<and>
           num_lines c = nb div bs \<and> num_sets c = nb div bs div a))"
proof (intro conjI impI)
  assume "bs = 0 \<or> a = 0"
  then show "cache_new nb bs a p = Inl DivisionByZero"
    by (rule cache_new_zero)
next
  assume h: "bs \<noteq> 0 \<and> a \<noteq> 0 \<and>
    unat (logbase2 bs) + unat (logbase2 (nb div bs div a)) \<le> 8 \<and>
    (nb div bs div a = 0 \<or> unat a < 2 ^ 31)"
  then have "\<exists>c. cache_new nb bs a p = Inr c"
    using cache_new_success[of bs a nb p] by blast
  then obtain c where c: "cache_new nb bs a p = Inr c" ..
  from cache_new_Inr[OF c] c
  show "\<exists>c. cache_new nb bs a p = Inr c \<and>
           num_lines c = nb div bs \<and> num_sets c = nb div bs div a"
    by blast
qed

theorem C2_no_validation_witness:
  "cache_new 100 0 2 0 = Inl DivisionByZero \<and>
   cache_new 100 16 0 0 = Inl DivisionByZero \<and>
   (\<exists>c. cache_new 100 16 4 0 = Inr c \<and> num_lines c = 6 \<and> num_sets c = 1) \<and>
   (\<exists>c. cache_new 0 16 2 0 = Inr c \<and> num_lines c = 0 \<and> num_sets c = 0)"
proof -
  have d: "(100 :: 64 word) div 16 = 6" "(6 :: 64 word) div 4 = 1" by simp_all
  have a: "cache_new 100 0 2 0 = Inl DivisionByZero"
    using C2_no_validation[of 0 2 100 0] by simp
  have b: "cache_new 100 16 0 0 = Inl DivisionByZero"
    using C2_no_validation[of 16 0 100 0] by simp
  have c: "\<exists>c. cache_new 100 16 4 0 = Inr c \<and> num_lines c = 6 \<and> num_sets c = 1"
    using C2_no_validation[of 16 4 100 0] by (simp add: d logbase2_16 logbase2_1)
  have e: "\<exists>c. cache_new 0 16 2 0 = Inr c \<and> num_lines c = 0 \<and> num_sets c = 0"
    using C2_no_validation[of 16 2 0 0] by (simp add: logbase2_16 logbase2_def logbase2_loop.simps)
  from a b c e show ?thesis by blast
qed

text \<open>
  Claim C3: every \<open>cache_read\<close> and \<open>cache_write\<close> adds exactly one to
  \<open>access_count\<close> and at most one to \<open>miss_count\<close>.

  The bodies of \<open>cache_read\<close> and \<open>cache_write\<close> are unwritten: neither counter is
  ever changed, and \<open>cache_access_count\<close>, documented as the number of accesses since
  the cache was created, is still 0 after a read of a new cache.
\<close>

theorem C3_counters_never_move:
  "cache_access_count (fst (snd (cache_read c h a g))) = cache_access_count c \<and>
   cache_access_count (fst (snd (cache_read c h a g))) \<noteq> cache_access_count c + 1 \<and>
   cache_miss_count (fst (snd (cache_read c h a g))) = cache_miss_count c \<and>
   cache_access_count (fst (cache_write c h a v g)) = cache_access_count c \<and>
   cache_miss_count (fst (cache_write c h a v g)) = cache_miss_count c \<and>
   map_sum id (\<lambda>c. cache_access_count (fst (snd (cache_read c h 0 g))))
     (cache_new 256 16 2 0) = Inr 0"
  by (simp add: cache_read_def cache_write_def cache_new_256_16_2 cache_access_count_def)

text \<open>
  Claim C4: \<open>cache_write(cache, a, v)\<close> followed by \<open>cache_read(cache, a)\<close> returns
  \<open>v\<close>.

  \<open>cache_write\<close> has an empty body and \<open>cache_read\<close> returns 0 whatever was written:
  after writing 1 at address 0 the read gives 0.
\<close>

theorem C4_read_after_write_is_zero:
  "(case cache_write c h a v g of (c1, h1) \<Rightarrow> fst (cache_read c1 h1 a g)) = 0 \<and>
   map_sum id (\<lambda>c. case cache_write c h 0 1 g of (c1, h1) \<Rightarrow> fst (cache_read c1 h1 0 g))
     (cache_new 256 16 2 0) = Inr 0"
  by (simp add: cache_read_def cache_write_def cache_new_256_16_2)

text \<open>
  Claim C5: on a read miss a line is installed, with the tag of the address, the valid
  flag set, the block copied from backing memory and the dirty flag cleared.

  \<open>cache_read\<close> returns 0 and leaves the cache as it was, and \<open>cache_set_add\<close>, which
  would install the line, is handed the null pointer by \<open>find_available_cache_line\<close>
  and dereferences it. After a read of address \<open>0x100\<close> in a new cache (a miss, since
  no line is valid) no line is valid and \<open>miss_count\<close> is 0.
\<close>

theorem C5_read_miss_installs_nothing:
  "cache_read c h a g = (0, c, h) \<and>
   cache_set_add c h s a tg g = Inl NullDereference \<and>
   map_sum id (\<lambda>c. case cache_read c h 0x100 g of (v, c1, h1) \<Rightarrow>
                      (v, filter is_valid (lines c1), cache_miss_count c1))
     (cache_new 256 16 2 CACHE_REPLACEMENTPOLICY_LRU) = Inr (0, [], 0)"
  by (simp add: cache_read_def cache_set_add_def find_available_cache_line_def
        cache_new_256_16_2 cache_miss_count_def)

text \<open>
  Claim C7: when \<open>lru_list\<close> is a permutation of \<open>0, ..., associativity - 1\<close> and
  \<open>line_index\<close> occurs in it, \<open>cache_line_make_mru\<close> takes \<open>line_index\<close> out of its
  place, moves the later entries one place down in their order, and puts \<open>line_index\<close>
  last; the list is again a permutation of \<open>0, ..., associativity - 1\<close>, and its last
  element is \<open>line_index\<close>. (\<open>remove1 x l @ [x]\<close> is the list \<open>l\<close> with the first
  \<open>x\<close> taken out and \<open>x\<close> put at the end.)
\<close>

theorem C7_make_mru:
  assumes perm: "mset (lru_list s) = mset (map of_nat [0..<unat (associativity c)])"
    and x: "x \<in> set (lru_list s)"
  shows "cache_line_make_mru c s x = Inr (s\<lparr>lru_list := remove1 x (lru_list s) @ [x]\<rparr>) \<and>
         mset (remove1 x (lru_list s) @ [x]) = mset (map of_nat [0..<unat (associativity c)]) \<and>
         last (remove1 x (lru_list s) @ [x]) = x"
proof -
  have "size (mset (lru_list s)) = size (mset (map of_nat [0..<unat (associativity c)] :: 64 word list))"
    using perm by simp
  then have len: "length (lru_list s) = unat (associativity c)"
    by simp
  have "mset (remove1 x (lru_list s) @ [x]) = mset (lru_list s)"
    using x by simp
  with perm make_mru_remove1[OF len x] show ?thesis
    by simp
qed

theorem C7_make_mru_witness:
  "cache_line_make_mru
     \<lparr>num_sets = 1, num_lines = 4, line_size = 16, associativity = 4,
      block_offset_mask = 0xF, cache_index_mask = 0, cache_index_shift = 4,
      tag_mask = 0xF0, tag_shift = 4, policies = CACHE_REPLACEMENTPOLICY_LRU,
      memory = replicate 64 None,
      lines = map (\<lambda>i. \<lparr>is_valid = False, is_dirty = False, is_marked = False, tag = 0,
                 block = Some (i * 16)\<rparr>) [0..<4],
      sets = [\<lparr>first_index = 0, lru_list = [2, 0, 3, 1], num_marked = 0\<rparr>],
      access_count = 0, miss_count = 0\<rparr>
     \<lparr>first_index = 0, lru_list = [2, 0, 3, 1], num_marked = 0\<rparr> 0
   = Inr \<lparr>first_index = 0, lru_list = [2, 3, 1, 0], num_marked = 0\<rparr>"
proof -
  let ?c = "\<lparr>num_sets = 1, num_lines = 4, line_size = 16, associativity = 4,
      block_offset_mask = 0xF, cache_index_mask = 0, cache_index_shift = 4,
      tag_mask = 0xF0, tag_shift = 4, policies = CACHE_REPLACEMENTPOLICY_LRU,
      memory = replicate 64 None,
      lines = map (\<lambda>i. \<lparr>is_valid = False, is_dirty = False, is_marked = False, tag = 0,
                 block = Some (i * 16)\<rparr>) [0..<4],
      sets = [\<lparr>first_index = 0, lru_list = [2, 0, 3, 1], num_marked = 0\<rparr>],
      access_count = 0, miss_count = (0 :: 32 word)\<rparr>"
  let ?s = "\<lparr>first_index = 0, lru_list = [2, 0, 3, 1], num_marked = (0 :: 64 word)\<rparr>"
  have u: "[0..<4] = [0, 1, 2, 3]" by (simp add: upt_rec)
  have p: "mset (lru_list ?s) = mset (map of_nat [0..<unat (associativity ?c)])"
    by (simp add: u)
  have m: "(0 :: 64 word) \<in> set (lru_list ?s)" by simp
  from C7_make_mru[OF p m] show ?thesis by simp
qed

text \<open>
  Claim C8: under randomized marking \<open>choose_unmarked_cache_line\<close> returns a line that
  was unmarked and marks it, after unmarking every line when all were marked.

  The body is unwritten: the function returns 0 and changes nothing. In a new cache the
  line it returns is still unmarked after the call and \<open>num_marked\<close> is still 0.
\<close>

theorem C8_choose_unmarked_marks_nothing:
  "choose_unmarked_cache_line c s g = (0, c) \<and>
   map_sum id
     (\<lambda>c. case choose_unmarked_cache_line c (sets c ! 0) g of (i, c') \<Rightarrow>
            (i, is_marked (lines c' ! unat (first_index (sets c' ! 0) + i)),
             num_marked (sets c' ! 0)))
     (cache_new 256 16 2 CACHE_REPLACEMENTPOLICY_RANDOMIZED_MARKING) = Inr (0, False, 0)"
  by (simp add: choose_unmarked_cache_line_def cache_new_256_16_2 upt_rec)

text \<open>
  256 bytes in lines of 16 bytes are 16 lines, and with associativity 2 they are 8
  sets: not 8 lines and 4 sets.
\<close>

theorem C9_counterexample:
  "map_sum id (\<lambda>c. (num_lines c, num_sets c)) (cache_new 256 16 2 0) = Inr (16, 8)"
  by (simp add: cache_new_256_16_2)

text \<open>
  Claim C9, with the example put right: for every cache built by \<open>cache_new\<close> from
  arguments where the associativity divides the number of lines,
  \<open>num_lines = total_bytes / block_size\<close>, \<open>num_sets = num_lines / associativity\<close> and
  \<open>num_lines = num_sets * associativity\<close>; in particular 256 bytes, lines of 16 bytes
  and associativity 2 give 16 lines and 8 sets. (That the sizes are powers of two is
  not needed.)
\<close>

theorem C9_geometry:
  "(cache_new nb bs a p = Inr c \<and> (nb div bs) mod a = 0 \<longrightarrow>
      num_lines c = nb div bs \<and> num_sets c = num_lines c div a \<and>
      num_lines c = num_sets c * a) \<and>
   map_sum id (\<lambda>c. (num_lines c, num_sets c)) (cache_new 256 16 2 q) = Inr (16, 8)"
proof (intro conjI impI)
  assume h: "cache_new nb bs a p = Inr c \<and> (nb div bs) mod a = 0"
  then have f: "num_lines c = nb div bs" "num_sets c = nb div bs div a"
    using cache_new_Inr[of nb bs a p c] by simp_all
  from f show "num_lines c = nb div bs" by simp
  from f show "num_sets c = num_lines c div a" by simp
  have "(nb div bs) div a * a + (nb div bs) mod a = nb div bs"
    by (rule word_mod_div_equality)
  with h f show "num_lines c = num_sets c * a" by simp
next
  show "map_sum id (\<lambda>c. (num_lines c, num_sets c)) (cache_new 256 16 2 q) = Inr (16, 8)"
    by (simp add: cache_new_256_16_2)
qed

theorem C9_geometry_witness:
  "\<exists>c. cache_new 1024 64 4 0 = Inr c \<and> ((1024 :: 64 word) div 64) mod 4 = 0 \<and>
       num_lines c = 16 \<and> num_sets c = 4 \<and> num_lines c = num_sets c * 4"
proof -
  have d: "(1024 :: 64 word) div 64 = 16" "(16 :: 64 word) div 4 = 4" by simp_all
  have l: "logbase2 64 = 6" "logbase2 4 = 2"
    by (simp_all add: logbase2_def logbase2_loop.simps)
  have "\<exists>c. cache_new 1024 64 4 0 = Inr c"
    by (subst cache_new_success) (simp_all add: d l)
  then obtain c where c: "cache_new 1024 64 4 0 = Inr c" ..
  have m: "((1024 :: 64 word) div 64) mod 4 = 0" by simp
  have "num_lines c = 1024 div 64 \<and> num_sets c = num_lines c div 4 \<and>
        num_lines c = num_sets c * 4"
    by (rule C9_geometry[of 1024 64 4 0 c 0, THEN conjunct1, THEN mp, OF conjI[OF c m]])
  with c m show ?thesis by (simp add: d)
qed

text \<open>
  Claim C10: in the cache that \<open>cache_new\<close> returns every line is invalid (and neither
  dirty nor marked), the \<open>lru_list\<close> of every set is \<open>0, 1, ..., associativity - 1\<close>,
  its \<open>num_marked\<close> is 0, both counters are 0, and the block of line \<open>i\<close> starts at
  byte \<open>i * line_size\<close> of the one allocation of \<open>num_bytes\<close> bytes, lies inside it
  and ends where the block of the next line starts.
\<close>

theorem C10_initial_state:
  assumes "cache_new nb bs a p = Inr c"
  shows "lines c = map (\<lambda>i. \<lparr>is_valid = False, is_dirty = False, is_marked = False, tag = 0,
                           block = Some (i * unat (line_size c))\<rparr>) [0..<unat (num_lines c)] \<and>
         sets c = map (\<lambda>k. \<lparr>first_index = of_nat k * associativity c,
                           lru_list = map of_nat [0..<unat (associativity c)],
                           num_marked = 0\<rparr>) [0..<unat (num_sets c)] \<and>
         access_count c = 0 \<and> miss_count c = 0 \<and>
         length (memory c) = unat nb \<and>
         (\<forall>i < unat (num_lines c).
            \<not> is_valid (lines c ! i) \<and>
            block (lines c ! i) = Some (i * unat (line_size c)) \<and>
            i * unat (line_size c) + unat (line_size c) \<le> length (memory c) \<and>
            (\<forall>j < unat (num_lines c). i < j \<longrightarrow>
               i * unat (line_size c) + unat (line_size c) \<le> j * unat (line_size c)))"
proof -
  note f = cache_new_Inr[OF assms]
  have fit: "unat (nb div bs) * unat bs \<le> unat nb"
    by (simp add: unat_div)
  have sl: "i * unat bs + unat bs \<le> unat nb" if "i < unat (nb div bs)" for i
  proof -
    have "Suc i * unat bs \<le> unat (nb div bs) * unat bs"
      using that by (intro mult_le_mono1) simp
    with fit show ?thesis by simp
  qed
  have dj: "i * unat bs + unat bs \<le> j * unat bs" if "i < j" for i j
  proof -
    have "Suc i * unat bs \<le> j * unat bs"
      using that by (intro mult_le_mono1) simp
    then show ?thesis by simp
  qed
  show ?thesis
    using f sl dj by simp
qed

theorem C10_initial_state_witness:
  "\<exists>c. cache_new 32 16 2 0 = Inr c \<and>
       lines c = [\<lparr>is_valid = False, is_dirty = False, is_marked = False, tag = 0, block = Some 0\<rparr>,
                  \<lparr>is_valid = False, is_dirty = False, is_marked = False, tag = 0, block = Some 16\<rparr>] \<and>
       sets c = [\<lparr>first_index = 0, lru_list = [0, 1], num_marked = 0\<rparr>] \<and>
       access_count c = 0 \<and> miss_count c = 0 \<and> length (memory c) = 32"
proof -
  obtain c where c: "cache_new 32 16 2 0 = Inr c"
    using cache_new_32_16_2[of 0] by blast
  have g: "num_lines c = 2" "num_sets c = 1" "line_size c = 16" "associativity c = 2"
    using c by (auto simp: cache_new_32_16_2)
  have u: "[0..<2] = [0, 1]" by (simp add: upt_rec)
  from C10_initial_state[OF c] c show ?thesis
    by (simp add: g u)
qed

end
